theory Spec2Isabelle
  imports Complex_Main "HOL-Library.Monad_Syntax"
begin

section \<open>Similarity analytics of \<open>SimilarityVisualization.tsx\<close>\<close>

text \<open>
  Strings are lists of code units. The model covers the code units U+0000 to U+00FF,
  one \<^typ>\<open>char\<close> each, so \<open>length\<close> is the \<open>.length\<close> of the source.
  Numbers are \<^typ>\<open>real\<close>: every quotient the source forms is a quotient of two
  string lengths or list lengths, and the comparisons against the constants
  \<open>0.9\<close>, \<open>0.8\<close>, \<open>0.7\<close>, \<open>0.4\<close>, \<open>0\<close> are modelled on the exact quotients.
\<close>

subsection \<open>Strings of the source\<close>

text \<open>
  Whitespace is what \<open>trim\<close> strips and what \<open>\s\<close> matches: tab, line feed, vertical tab,
  form feed, carriage return, space and no-break space (the others lie beyond U+00FF).
\<close>

definition is_space :: "char \<Rightarrow> bool" where
  "is_space c \<longleftrightarrow>
     c \<in> set [CHR 0x09, CHR 0x0A, CHR 0x0B, CHR 0x0C, CHR 0x0D, CHR 0x20, CHR 0xA0]"

definition trim :: "string \<Rightarrow> string" where
  "trim str = rev (dropWhile is_space (rev (dropWhile is_space str)))"

text \<open>
  \<open>toLowerCase\<close>: the capital letters below U+0100 are A to Z, U+00C0 to U+00D6 and
  U+00D8 to U+00DE; each has its small letter 32 code units above.
\<close>

definition lower_char :: "char \<Rightarrow> char" where
  "lower_char c =
     (let n = (of_char c :: nat)
      in if (65 \<le> n \<and> n \<le> 90) \<or> (192 \<le> n \<and> n \<le> 214) \<or> (216 \<le> n \<and> n \<le> 222)
         then char_of (n + 32) else c)"

definition toLowerCase :: "string \<Rightarrow> string" where
  "toLowerCase str = map lower_char str"

text \<open>\<open>str.split('\n')\<close>, written for any separator.\<close>

fun split :: "'a \<Rightarrow> 'a list \<Rightarrow> 'a list list" where
  "split sep [] = [[]]"
| "split sep (c # cs) =
     (if c = sep then [] # split sep cs
      else (let rest = split sep cs in (c # hd rest) # tl rest))"

definition split_lines :: "string \<Rightarrow> string list" where
  "split_lines text = split (CHR 0x0A) text"

text \<open>\<open>str.replace(/\s+/g, ' ')\<close>: every maximal run of whitespace becomes one space.\<close>

function replace_spaces :: "string \<Rightarrow> string" where
  "replace_spaces [] = []"
| "replace_spaces (c # cs) =
     (if is_space c then CHR 0x20 # replace_spaces (dropWhile is_space cs)
      else c # replace_spaces cs)"
  by pat_completeness auto
termination
  by (relation "measure length") (auto simp: less_Suc_eq_le length_dropWhile_le)

text \<open>\<open>str.split(/\s+/)\<close>: the pieces between maximal runs of whitespace, empty pieces kept.\<close>

function split_spaces :: "string \<Rightarrow> string list" where
  "split_spaces [] = [[]]"
| "split_spaces (c # cs) =
     (if is_space c then [] # split_spaces (dropWhile is_space cs)
      else (let rest = split_spaces cs in (c # hd rest) # tl rest))"
  by pat_completeness auto
termination
  by (relation "measure length") (auto simp: less_Suc_eq_le length_dropWhile_le)

text \<open>\<open>hay.includes(needle)\<close>: the needle occurs at some position of the haystack.\<close>

fun str_includes :: "'a list \<Rightarrow> 'a list \<Rightarrow> bool" where
  "str_includes [] needle = (needle = [])"
| "str_includes (h # hs) needle = (take (length needle) (h # hs) = needle \<or> str_includes hs needle)"

subsection \<open>Arrays of the source\<close>

text \<open>
  A read \<open>xs[i]\<close> outside the array gives \<open>undefined\<close>, and a write \<open>xs[i] = v\<close>
  beyond the length leaves holes. The model stops with \<open>None\<close> at either, so a result
  \<open>Some\<close> says that neither happened. A write at the length appends.
\<close>

definition js_get :: "'a list \<Rightarrow> nat \<Rightarrow> 'a option" where
  "js_get xs i = (if i < length xs then Some (xs ! i) else None)"

definition js_put :: "'a list \<Rightarrow> nat \<Rightarrow> 'a \<Rightarrow> 'a list option" where
  "js_put xs i v =
     (if i < length xs then Some (xs[i := v])
      else if i = length xs then Some (xs @ [v])
      else None)"

text \<open>\<open>matrix[i][j]\<close> and \<open>matrix[i][j] = v\<close>.\<close>

definition cell :: "'a list list \<Rightarrow> nat \<Rightarrow> nat \<Rightarrow> 'a option" where
  "cell m i j = do { row \<leftarrow> js_get m i; js_get row j }"

definition set_cell :: "'a list list \<Rightarrow> nat \<Rightarrow> nat \<Rightarrow> 'a \<Rightarrow> 'a list list option" where
  "set_cell m i j v = do { row \<leftarrow> js_get m i; row' \<leftarrow> js_put row j v; js_put m i row' }"

text \<open>A counting loop \<open>for (let i = a; i <= b; i++)\<close> runs its body over \<open>[a..<Suc b]\<close>.\<close>

fun for_each :: "nat list \<Rightarrow> (nat \<Rightarrow> 's \<Rightarrow> 's option) \<Rightarrow> 's \<Rightarrow> 's option" where
  "for_each [] body s = Some s"
| "for_each (i # is) body s = (case body i s of None \<Rightarrow> None | Some s' \<Rightarrow> for_each is body s')"

text \<open>\<open>str.charAt(i)\<close> is the empty string outside the string.\<close>

definition charAt :: "'a list \<Rightarrow> nat \<Rightarrow> 'a list" where
  "charAt str i = (if i < length str then [str ! i] else [])"

subsection \<open>\<open>levenshteinDistance\<close>\<close>

definition lev_rows :: "nat \<Rightarrow> nat list list \<Rightarrow> nat list list option" where
  "lev_rows len2 matrix = for_each [0..<Suc len2] (\<lambda>i m. js_put m i [i]) matrix"

definition lev_cols :: "nat \<Rightarrow> nat list list \<Rightarrow> nat list list option" where
  "lev_cols len1 matrix = for_each [0..<Suc len1] (\<lambda>j m. set_cell m 0 j j) matrix"

definition lev_cell :: "'a list \<Rightarrow> 'a list \<Rightarrow> nat \<Rightarrow> nat \<Rightarrow> nat list list \<Rightarrow> nat list list option" where
  "lev_cell str1 str2 i j m =
     (if charAt str2 (i - 1) = charAt str1 (j - 1) then
        do { d \<leftarrow> cell m (i - 1) (j - 1); set_cell m i j d }
      else
        do { d \<leftarrow> cell m (i - 1) (j - 1);
             l \<leftarrow> cell m i (j - 1);
             u \<leftarrow> cell m (i - 1) j;
             set_cell m i j (min (d + 1) (min (l + 1) (u + 1))) })"

definition lev_fill :: "'a list \<Rightarrow> 'a list \<Rightarrow> nat list list \<Rightarrow> nat list list option" where
  "lev_fill str1 str2 matrix =
     for_each [1..<Suc (length str2)]
       (\<lambda>i. for_each [1..<Suc (length str1)] (\<lambda>j. lev_cell str1 str2 i j)) matrix"

definition levenshteinDistance :: "'a list \<Rightarrow> 'a list \<Rightarrow> nat option" where
  "levenshteinDistance str1 str2 =
     do { m1 \<leftarrow> lev_rows (length str2) [];
          m2 \<leftarrow> lev_cols (length str1) m1;
          m3 \<leftarrow> lev_fill str1 str2 m2;
          cell m3 (length str2) (length str1) }"

subsection \<open>\<open>calculateLineSimilarity\<close>\<close>

definition calculateLineSimilarity :: "'a list \<Rightarrow> 'a list \<Rightarrow> real option" where
  "calculateLineSimilarity str1 str2 =
     (let longer = (if length str1 > length str2 then str1 else str2);
          shorter = (if length str1 > length str2 then str2 else str1)
      in if length longer = 0 then Some 1
         else do { editDistance \<leftarrow> levenshteinDistance longer shorter;
                   Some ((real (length longer) - real editDistance) / real (length longer)) })"

subsection \<open>\<open>highlightMatches\<close>: its helpers, the threshold and the direct line comparison\<close>

definition normalize :: "string \<Rightarrow> string" where
  "normalize str = toLowerCase (replace_spaces (trim str))"

text \<open>The class \<open>[^a-z0-9\s]\<close> of \<open>tokenize\<close>.\<close>

definition special_char :: "char \<Rightarrow> bool" where
  "special_char c \<longleftrightarrow>
     \<not> ((97 \<le> (of_char c :: nat) \<and> (of_char c :: nat) \<le> 122) \<or>
        (48 \<le> (of_char c :: nat) \<and> (of_char c :: nat) \<le> 57) \<or> is_space c)"

definition tokenize :: "string \<Rightarrow> string list" where
  "tokenize str =
     filter (\<lambda>token. length token > 2)
       (split_spaces (map (\<lambda>c. if special_char c then CHR 0x20 else c) (toLowerCase str)))"

definition calculateTokenSimilarity :: "string list \<Rightarrow> string list \<Rightarrow> real" where
  "calculateTokenSimilarity tokens1 tokens2 =
     (let set1 = set tokens1;
          set2 = set tokens2;
          intersection = Set.filter (\<lambda>x. x \<in> set2) set1;
          union = set1 \<union> set2
      in if card union > 0 then real (card intersection) / real (card union) else 0)"

definition calculateExactSimilarity :: "string \<Rightarrow> string \<Rightarrow> real" where
  "calculateExactSimilarity str1 str2 =
     (let norm1 = normalize str1;
          norm2 = normalize str2
      in if norm1 = norm2 then 1
         else if str_includes norm1 norm2 \<or> str_includes norm2 norm1
         then real (min (length norm1) (length norm2)) / real (max (length norm1) (length norm2))
         else 0)"

definition threshold :: "real \<Rightarrow> real" where
  "threshold overallScore =
     (if overallScore \<ge> 0.8 then 0.20
      else if overallScore \<ge> 0.6 then 0.30
      else if overallScore \<ge> 0.4 then 0.40
      else 0.50)"

text \<open>\<open>otherText ? otherText.split('\n') : []\<close>; the empty string is falsy.\<close>

definition other_lines :: "string \<Rightarrow> string list" where
  "other_lines otherText = (if otherText = [] then [] else split_lines otherText)"

text \<open>The inner loop of step 1, which leaves at the first match.\<close>

fun direct_match :: "string \<Rightarrow> string list \<Rightarrow> bool" where
  "direct_match trimmedLine [] = False"
| "direct_match trimmedLine (otherLine # rest) =
     (let trimmedOther = trim otherLine
      in if length trimmedOther = 0 then direct_match trimmedLine rest
         else if calculateExactSimilarity trimmedLine trimmedOther \<ge> 0.80 then True
         else direct_match trimmedLine rest)"

text \<open>Step 1: \<open>lines.forEach((line, lineIndex) => ...)\<close> over the set \<open>plagiarizedLines\<close>.\<close>

fun direct_lines :: "string list \<Rightarrow> nat \<Rightarrow> string list \<Rightarrow> nat set \<Rightarrow> nat set" where
  "direct_lines [] lineIndex otherLines plagiarizedLines = plagiarizedLines"
| "direct_lines (line # rest) lineIndex otherLines plagiarizedLines =
     (let trimmedLine = trim line
      in if length trimmedLine = 0
         then direct_lines rest (Suc lineIndex) otherLines plagiarizedLines
         else direct_lines rest (Suc lineIndex) otherLines
                (if direct_match trimmedLine otherLines
                 then insert lineIndex plagiarizedLines else plagiarizedLines))"

text \<open>
  The lines that a call of \<open>highlightMatches\<close> records in step 1. The call returns at
  its first statement, \<open>if (segments.length === 0 || !text) return text\<close>, before any
  line is compared; then no line is recorded. Step 1 reads nothing else of the segments,
  so their type is left open.
\<close>

definition step1 :: "'s list \<Rightarrow> string \<Rightarrow> string \<Rightarrow> nat set" where
  "step1 segments text otherText =
     (if length segments = 0 \<or> text = [] then {}
      else direct_lines (split_lines text) 0 (other_lines otherText) {})"

subsection \<open>\<open>calculateLineMatchData\<close>\<close>

record LineMatchRecord =
  line :: nat
  similarity :: real
  matched :: bool

text \<open>\<open>lines2.forEach\<close> over the pair \<open>(maxSimilarity, hasMatch)\<close>.\<close>

fun scan_lines2 :: "string \<Rightarrow> string list \<Rightarrow> real \<times> bool \<Rightarrow> (real \<times> bool) option" where
  "scan_lines2 trimmed1 [] acc = Some acc"
| "scan_lines2 trimmed1 (line2 # rest) (maxSimilarity, hasMatch) =
     (let trimmed2 = trim line2
      in if length trimmed2 = 0 then scan_lines2 trimmed1 rest (maxSimilarity, hasMatch)
         else do { similarity \<leftarrow> calculateLineSimilarity trimmed1 trimmed2;
                   scan_lines2 trimmed1 rest
                     (if similarity > maxSimilarity then similarity else maxSimilarity,
                      if similarity \<ge> 0.8 then True else hasMatch) })"

text \<open>\<open>lines1.forEach((line1, index) => ...)\<close> over the array \<open>matchData\<close>.\<close>

fun scan_lines1 ::
  "string list \<Rightarrow> nat \<Rightarrow> string list \<Rightarrow> LineMatchRecord list \<Rightarrow> LineMatchRecord list option" where
  "scan_lines1 [] index lines2 matchData = Some matchData"
| "scan_lines1 (line1 # rest) index lines2 matchData =
     (let trimmed1 = trim line1
      in if length trimmed1 = 0
         then scan_lines1 rest (Suc index) lines2
                (matchData @ [\<lparr>line = index + 1, similarity = 0, matched = False\<rparr>])
         else do { (maxSimilarity, hasMatch) \<leftarrow> scan_lines2 trimmed1 lines2 (0, False);
                   scan_lines1 rest (Suc index) lines2
                     (matchData @
                      [\<lparr>line = index + 1, similarity = maxSimilarity, matched = hasMatch\<rparr>]) })"

definition calculateLineMatchData :: "string \<Rightarrow> string \<Rightarrow> LineMatchRecord list option" where
  "calculateLineMatchData content1 content2 =
     (let lines1 = split_lines content1;
          lines2 = split_lines content2
      in scan_lines1 lines1 0 lines2 [])"

subsection \<open>\<open>calculateSimilarityDistribution\<close> and the summary counts\<close>

record ranges =
  exact :: nat
  high :: nat
  medium :: nat
  low :: nat
  none :: nat

definition count_range :: "ranges \<Rightarrow> LineMatchRecord \<Rightarrow> ranges" where
  "count_range r d =
     (if similarity d \<ge> 0.9 then r\<lparr>exact := exact r + 1\<rparr>
      else if similarity d \<ge> 0.7 then r\<lparr>high := high r + 1\<rparr>
      else if similarity d \<ge> 0.4 then r\<lparr>medium := medium r + 1\<rparr>
      else if similarity d > 0 then r\<lparr>low := low r + 1\<rparr>
      else r\<lparr>none := none r + 1\<rparr>)"

definition count_ranges :: "LineMatchRecord list \<Rightarrow> ranges" where
  "count_ranges matchData =
     foldl count_range \<lparr>exact = 0, high = 0, medium = 0, low = 0, none = 0\<rparr> matchData"

definition calculateSimilarityDistribution :: "string \<Rightarrow> string \<Rightarrow> ranges option" where
  "calculateSimilarityDistribution content1 content2 =
     do { matchData \<leftarrow> calculateLineMatchData content1 content2; Some (count_ranges matchData) }"

definition totalLines :: "LineMatchRecord list \<Rightarrow> nat" where
  "totalLines lineMatchData = length lineMatchData"

definition matchedLines :: "LineMatchRecord list \<Rightarrow> nat" where
  "matchedLines lineMatchData = length (filter matched lineMatchData)"

definition matchPercentage :: "LineMatchRecord list \<Rightarrow> real" where
  "matchPercentage lineMatchData =
     (if totalLines lineMatchData > 0
      then real (matchedLines lineMatchData) / real (totalLines lineMatchData) * 100
      else 0)"

text \<open>
  \<open>distribution.exact/totalLines*100\<close> and its four siblings in the bars: a division by
  zero gives no finite number, which the model writes as \<open>None\<close>.
\<close>

definition range_percentage :: "nat \<Rightarrow> LineMatchRecord list \<Rightarrow> real option" where
  "range_percentage n lineMatchData =
     (if totalLines lineMatchData = 0 then None
      else Some (real n / real (totalLines lineMatchData) * 100))"

subsection \<open>The edit distance, as the specification words it\<close>

text \<open>
  One operation inserts, deletes or substitutes a single character anywhere in the string;
  \<open>edits n s t\<close> says that \<open>n\<close> operations, one after the other, turn \<open>s\<close> into \<open>t\<close>;
  the edit distance is the least such \<open>n\<close>.
\<close>

inductive edit_op :: "'a list \<Rightarrow> 'a list \<Rightarrow> bool" where
  insert_op: "edit_op (u @ v) (u @ c # v)"
| delete_op: "edit_op (u @ c # v) (u @ v)"
| substitute_op: "edit_op (u @ a # v) (u @ b # v)"

inductive edits :: "nat \<Rightarrow> 'a list \<Rightarrow> 'a list \<Rightarrow> bool" where
  edits_none: "edits 0 s s"
| edits_more: "edits n s t \<Longrightarrow> edit_op t u \<Longrightarrow> edits (Suc n) s u"

definition edit_distance :: "'a list \<Rightarrow> 'a list \<Rightarrow> nat" where
  "edit_distance s t = (LEAST n. edits n s t)"

text \<open>
  The recurrence of the edit distance over the first characters. It is shown below to
  compute \<open>edit_distance\<close>, and it is what the matrix of the source holds.
\<close>

fun ed :: "'a list \<Rightarrow> 'a list \<Rightarrow> nat" where
  "ed [] ys = length ys"
| "ed (x # xs) [] = Suc (length xs)"
| "ed (x # xs) (y # ys) =
     min (min (Suc (ed xs (y # ys))) (Suc (ed (x # xs) ys)))
         (if x = y then ed xs ys else Suc (ed xs ys))"

text \<open>
  The matrix of \<open>levenshteinDistance\<close>: the cell \<open>(i, j)\<close> is the distance between the first
  \<open>i\<close> characters of \<open>str2\<close> and the first \<open>j\<close> characters of \<open>str1\<close>. The two
  invariants describe the matrix at the head of the outer loop and of the inner loop.
\<close>

definition pd :: "'a list \<Rightarrow> 'a list \<Rightarrow> nat \<Rightarrow> nat \<Rightarrow> nat" where
  "pd str1 str2 i j = ed (rev (take i str2)) (rev (take j str1))"

definition lev_row :: "'a list \<Rightarrow> 'a list \<Rightarrow> nat \<Rightarrow> nat list" where
  "lev_row str1 str2 k = map (pd str1 str2 k) [0..<Suc (length str1)]"

definition lev_outer_inv :: "'a list \<Rightarrow> 'a list \<Rightarrow> nat \<Rightarrow> nat list list \<Rightarrow> bool" where
  "lev_outer_inv str1 str2 i m \<longleftrightarrow>
     length m = Suc (length str2) \<and>
     (\<forall>k<i. m ! k = lev_row str1 str2 k) \<and>
     (\<forall>k. i \<le> k \<and> k \<le> length str2 \<longrightarrow> m ! k = [k])"

definition lev_inner_inv :: "'a list \<Rightarrow> 'a list \<Rightarrow> nat \<Rightarrow> nat \<Rightarrow> nat list list \<Rightarrow> bool" where
  "lev_inner_inv str1 str2 i j m \<longleftrightarrow>
     length m = Suc (length str2) \<and>
     (\<forall>k<i. m ! k = lev_row str1 str2 k) \<and>
     m ! i = map (pd str1 str2 i) [0..<j] \<and>
     (\<forall>k. i < k \<and> k \<le> length str2 \<longrightarrow> m ! k = [k])"

section \<open>Properties\<close>

subsection \<open>The recurrence computes the edit distance\<close>

lemma ed_Nil2 [simp]: "ed xs [] = length xs"
  by (cases xs) simp_all

lemma ed_same [simp]: "ed xs xs = 0"
  by (induction xs) simp_all

lemma ed_sym: "ed xs ys = ed ys xs"
  by (induction xs ys rule: ed.induct) (simp_all add: min.commute min.left_commute)

lemma ed_Cons1: "ed (x # xs) ys \<le> Suc (ed xs ys)"
  by (cases ys) (simp_all add: min.coboundedI1)

lemma ed_Cons2: "ed xs (y # ys) \<le> Suc (ed xs ys)"
  by (cases xs) (simp_all add: min.coboundedI1 min.coboundedI2)

text \<open>One operation on the second string, seen through a common first character.\<close>
lemma ed_lift: 
  assumes "\<And>s. ed s t' \<le> Suc (ed s t)"
  shows "ed s (q # t') \<le> Suc (ed s (q # t))"
proof (induction s)
  case Nil
  from assms[of "[]"] show ?case by simp
next
  case (Cons x xs)
  have a: "ed (x # xs) (q # t') \<le> Suc (ed xs (q # t'))" by (rule ed_Cons1)
  have b: "ed (x # xs) (q # t') \<le> Suc (ed (x # xs) t')" by (rule ed_Cons2)
  have c: "ed (x # xs) (q # t') \<le> (if x = q then ed xs t' else Suc (ed xs t'))" by simp
  from a b c Cons assms[of xs] assms[of "x # xs"] show ?case
    by (simp add: min_def split: if_splits)
qed

lemma ed_del_front: "ed s t \<le> Suc (ed s (c # t))"
proof (induction s)
  case Nil show ?case by simp
next
  case (Cons x xs)
  have 0: "ed (x # xs) t \<le> Suc (ed xs t)" by (rule ed_Cons1)
  have 1: "ed (x # xs) t \<le> Suc (Suc (ed xs (c # t)))" using 0 Cons by linarith
  have 2: "ed (x # xs) t \<le> Suc (Suc (ed (x # xs) t))" by simp
  have 3: "ed (x # xs) t \<le> Suc (if x = c then ed xs t else Suc (ed xs t))" using 0 by auto
  have "ed (x # xs) (c # t) =
      min (min (Suc (ed xs (c # t))) (Suc (ed (x # xs) t))) (if x = c then ed xs t else Suc (ed xs t))"
    by simp
  with 1 2 3 show ?case by (metis Suc_le_mono min_def)
qed

lemma ed_sub_front: "ed s (b # t) \<le> Suc (ed s (a # t))"
proof (induction s)
  case Nil show ?case by simp
next
  case (Cons x xs)
  have 1: "ed (x # xs) (b # t) \<le> Suc (ed xs (b # t))" by (rule ed_Cons1)
  have 2: "ed (x # xs) (b # t) \<le> Suc (ed (x # xs) t)" by (rule ed_Cons2)
  have 3: "ed (x # xs) (b # t) \<le> Suc (ed xs t)" by (simp add: min.coboundedI2)
  from 1 2 3 Cons show ?case by (simp add: min_def split: if_splits)
qed

lemma ed_ins_at: "ed s (u @ c # v) \<le> Suc (ed s (u @ v))"
proof (induction u arbitrary: s)
  case Nil show ?case by (simp add: ed_Cons2)
next
  case (Cons q u) show ?case using ed_lift[of "u @ c # v" "u @ v" s q] Cons by simp
qed

lemma ed_del_at: "ed s (u @ v) \<le> Suc (ed s (u @ c # v))"
proof (induction u arbitrary: s)
  case Nil show ?case by (simp add: ed_del_front)
next
  case (Cons q u) show ?case using ed_lift[of "u @ v" "u @ c # v" s q] Cons by simp
qed

lemma ed_sub_at: "ed s (u @ b # v) \<le> Suc (ed s (u @ a # v))"
proof (induction u arbitrary: s)
  case Nil show ?case by (simp add: ed_sub_front)
next
  case (Cons q u) show ?case using ed_lift[of "u @ b # v" "u @ a # v" s q] Cons by simp
qed

lemma ed_edit_op: "edit_op t u \<Longrightarrow> ed s u \<le> Suc (ed s t)"
  by (induction rule: edit_op.induct) (rule ed_ins_at ed_del_at ed_sub_at)+

lemma edits_lower: "edits n s t \<Longrightarrow> ed s t \<le> n"
proof (induction rule: edits.induct)
  case edits_none show ?case by simp
next
  case (edits_more n s t u)
  from ed_edit_op[OF edits_more.hyps(2), of s] edits_more.IH show ?case by simp
qed

lemma edit_op_Cons: "edit_op s t \<Longrightarrow> edit_op (c # s) (c # t)"
proof (induction rule: edit_op.induct)
  case (insert_op u v c') show ?case using edit_op.insert_op[of "c # u" v c'] by simp
next
  case (delete_op u c' v) show ?case using edit_op.delete_op[of "c # u" c' v] by simp
next
  case (substitute_op u a v b) show ?case using edit_op.substitute_op[of "c # u" a v b] by simp
qed

lemma edits_Cons: "edits n s t \<Longrightarrow> edits n (c # s) (c # t)"
  by (induction rule: edits.induct) (auto intro: edits.intros edit_op_Cons)

lemma edits_first: "edit_op s t \<Longrightarrow> edits n t u \<Longrightarrow> edits (Suc n) s u"
proof (induction n arbitrary: u)
  case 0
  from "0.prems"(2) have "u = t" by (cases rule: edits.cases) auto
  with "0.prems"(1) show ?case by (auto intro: edits.intros)
next
  case (Suc n)
  from Suc.prems(2) obtain w where "edits n t w" "edit_op w u"
    by (cases rule: edits.cases) auto
  with Suc.IH[OF Suc.prems(1)] show ?case by (auto intro: edits.intros)
qed

lemma edit_op_front:
  "edit_op v (c # v)" "edit_op (c # v) v" "edit_op (a # v) (b # v)"
  using edit_op.insert_op[of "[]" v c] edit_op.delete_op[of "[]" c v]
    edit_op.substitute_op[of "[]" a v b] by simp_all

lemma edits_upper: "edits (ed s t) s t"
proof (induction s t rule: ed.induct)
  case (1 ys)
  show ?case
  proof (induction ys rule: rev_induct)
    case Nil show ?case by (simp add: edits_none)
  next
    case (snoc y ys)
    have "edit_op (ys @ []) (ys @ y # [])" by (rule edit_op.insert_op)
    with snoc show ?case by (auto intro: edits_more)
  qed
next
  case (2 x xs)
  have "edits (length zs) zs []" for zs :: "'a list"
  proof (induction zs)
    case Nil show ?case by (simp add: edits_none)
  next
    case (Cons z zs)
    from edits_first[OF edit_op_front(2)[of z zs] Cons] show ?case by simp
  qed
  from this[of "x # xs"] show ?case by simp
next
  case (3 x xs y ys)
  let ?a = "Suc (ed xs (y # ys))" and ?b = "Suc (ed (x # xs) ys)"
  let ?c = "if x = y then ed xs ys else Suc (ed xs ys)"
  have A: "edits ?a (x # xs) (y # ys)"
    using edits_first[OF edit_op_front(2)[of x xs] "3.IH"(1)] .
  have B: "edits ?b (x # xs) (y # ys)"
    using edits_more[OF "3.IH"(2) edit_op_front(1)[of ys y]] .
  have C: "edits ?c (x # xs) (y # ys)"
  proof (cases "x = y")
    case True
    with edits_Cons[OF "3.IH"(3)[OF True], of y] show ?thesis by simp
  next
    case False
    with edits_first[OF edit_op_front(3)[of x xs y] edits_Cons[OF "3.IH"(4)[OF False], of y]]
    show ?thesis by simp
  qed
  from A B C show ?case by (simp add: min_def)
qed

lemma edit_distance_ed: "edit_distance s t = ed s t"
  unfolding edit_distance_def
  by (rule Least_equality) (auto intro: edits_upper edits_lower)

subsection \<open>The matrix holds the recurrence\<close>

lemma for_each_append:
  "for_each (xs @ ys) body s =
     (case for_each xs body s of None \<Rightarrow> None | Some s' \<Rightarrow> for_each ys body s')"
  by (induction xs arbitrary: s) (auto split: option.splits)

lemma for_each_upt:
  assumes "a \<le> b" and "I a s"
    and step: "\<And>i s. a \<le> i \<Longrightarrow> i < b \<Longrightarrow> I i s \<Longrightarrow> \<exists>s'. body i s = Some s' \<and> I (Suc i) s'"
  shows "\<exists>s'. for_each [a..<b] body s = Some s' \<and> I b s'"
  using assms(1) step
proof (induction b)
  case 0
  with assms(2) show ?case by simp
next
  case (Suc b)
  show ?case
  proof (cases "a \<le> b")
    case True
    have "\<exists>s'. for_each [a..<b] body s = Some s' \<and> I b s'"
      using Suc.IH[OF True] Suc.prems(2) by (meson less_Suc_eq)
    then obtain s1 where s1: "for_each [a..<b] body s = Some s1" "I b s1" by blast
    from Suc.prems(2)[OF True _ s1(2)] obtain s2 where "body b s1 = Some s2" "I (Suc b) s2"
      by auto
    with s1 True show ?thesis by (simp add: for_each_append)
  next
    case False
    with Suc.prems(1) have "a = Suc b" by simp
    with assms(2) show ?thesis by simp
  qed
qed

lemma pd_0 [simp]: "pd str1 str2 0 j = min j (length str1)" "pd str1 str2 i 0 = min i (length str2)"
  by (simp_all add: pd_def min.commute)

lemma ed_source_step:
  "ed (x # xs) (y # ys) =
     (if x = y then ed xs ys
      else min (ed xs ys + 1) (min (ed (x # xs) ys + 1) (ed xs (y # ys) + 1)))"
proof (cases "x = y")
  case True
  have "ed xs ys \<le> Suc (ed xs (y # ys))" by (rule ed_del_front)
  moreover have "ed xs ys \<le> Suc (ed (x # xs) ys)"
    using ed_del_front[of ys xs x] by (simp add: ed_sym)
  ultimately show ?thesis using True by (simp add: min_def)
next
  case False
  then show ?thesis by (simp add: min.commute min.left_commute)
qed

lemma pd_step:
  assumes "i < length str2" "j < length str1"
  shows "pd str1 str2 (Suc i) (Suc j) =
     (if str2 ! i = str1 ! j then pd str1 str2 i j
      else min (pd str1 str2 i j + 1) (min (pd str1 str2 (Suc i) j + 1) (pd str1 str2 i (Suc j) + 1)))"
  using assms unfolding pd_def
  by (simp only: take_Suc_conv_app_nth rev_append rev.simps append.simps ed_source_step)

lemma lev_rows_eq: "lev_rows len2 [] = Some (map (\<lambda>k. [k]) [0..<Suc len2])"
proof -
  let ?I = "\<lambda>i m. m = map (\<lambda>k. [k]) [0..<i]"
  have "\<exists>m'. for_each [0..<Suc len2] (\<lambda>i m. js_put m i [i]) [] = Some m' \<and> ?I (Suc len2) m'"
    by (rule for_each_upt[where I = ?I]) (simp_all add: js_put_def)
  then show ?thesis by (auto simp: lev_rows_def)
qed

lemma lev_cols_eq:
  "lev_cols len1 (map (\<lambda>k. [k]) [0..<Suc len2]) = Some ([0..<Suc len1] # map (\<lambda>k. [k]) [1..<Suc len2])"
proof -
  let ?rest = "map (\<lambda>k. [k]) [1..<Suc len2]"
  let ?I = "\<lambda>j m. m = (if j = 0 then [0] else [0..<j]) # ?rest"
  have init: "map (\<lambda>k. [k]) [0..<Suc len2] = [0] # ?rest"
    by (simp add: upt_rec[of 0])
  have "\<exists>m'. for_each [0..<Suc len1] (\<lambda>j m. set_cell m 0 j j) ([0] # ?rest) = Some m' \<and> ?I (Suc len1) m'"
    by (rule for_each_upt[where I = ?I]) (auto simp: set_cell_def js_get_def js_put_def)
  then show ?thesis unfolding lev_cols_def init by (auto simp del: upt_Suc)
qed

lemma cell_Some: "i < length m \<Longrightarrow> j < length (m ! i) \<Longrightarrow> cell m i j = Some (m ! i ! j)"
  by (simp add: cell_def js_get_def)

lemma set_cell_append:
  "i < length m \<Longrightarrow> j = length (m ! i) \<Longrightarrow> set_cell m i j v = Some (m[i := m ! i @ [v]])"
  by (simp add: set_cell_def js_get_def js_put_def)

lemma lev_cell_step:
  assumes inv: "lev_inner_inv str1 str2 (Suc i) (Suc j) m"
    and i: "i < length str2" and j: "j < length str1"
  shows "\<exists>m'. lev_cell str1 str2 (Suc i) (Suc j) m = Some m' \<and>
               lev_inner_inv str1 str2 (Suc i) (Suc (Suc j)) m'"
proof -
  from inv have len: "length m = Suc (length str2)"
    and prev: "m ! i = lev_row str1 str2 i"
    and cur: "m ! Suc i = map (pd str1 str2 (Suc i)) [0..<Suc j]"
    and filled: "\<forall>k<Suc i. m ! k = lev_row str1 str2 k"
    and pending: "\<forall>k. Suc i < k \<and> k \<le> length str2 \<longrightarrow> m ! k = [k]"
    by (simp_all add: lev_inner_inv_def)
  have d: "cell m i j = Some (pd str1 str2 i j)"
    using len prev i j by (simp add: cell_Some lev_row_def del: upt_Suc)
  have u: "cell m i (Suc j) = Some (pd str1 str2 i (Suc j))"
    using len prev i j by (simp add: cell_Some lev_row_def del: upt_Suc)
  have l: "cell m (Suc i) j = Some (pd str1 str2 (Suc i) j)"
    using len cur i j by (simp add: cell_Some del: upt_Suc)
  have w: "set_cell m (Suc i) (Suc j) v = Some (m[Suc i := m ! Suc i @ [v]])" for v
    using len cur i by (simp add: set_cell_append del: upt_Suc)
  have ch: "charAt str2 i = charAt str1 j \<longleftrightarrow> str2 ! i = str1 ! j"
    using i j by (simp add: charAt_def)
  let ?v = "pd str1 str2 (Suc i) (Suc j)"
  have run: "lev_cell str1 str2 (Suc i) (Suc j) m = Some (m[Suc i := m ! Suc i @ [?v]])"
    using d u l w ch by (simp add: lev_cell_def pd_step[OF i j])
  have "lev_inner_inv str1 str2 (Suc i) (Suc (Suc j)) (m[Suc i := m ! Suc i @ [?v]])"
    unfolding lev_inner_inv_def
  proof (intro conjI)
    show "length (m[Suc i := m ! Suc i @ [?v]]) = Suc (length str2)" using len by simp
    show "\<forall>k<Suc i. m[Suc i := m ! Suc i @ [?v]] ! k = lev_row str1 str2 k"
      using filled by simp
    show "m[Suc i := m ! Suc i @ [?v]] ! Suc i = map (pd str1 str2 (Suc i)) [0..<Suc (Suc j)]"
      using len i cur by simp
    show "\<forall>k. Suc i < k \<and> k \<le> length str2 \<longrightarrow> m[Suc i := m ! Suc i @ [?v]] ! k = [k]"
      using pending by simp
  qed
  with run show ?thesis by blast
qed

lemma lev_inner_loop:
  assumes inv: "lev_outer_inv str1 str2 (Suc i) m" and i: "i < length str2"
  shows "\<exists>m'. for_each [1..<Suc (length str1)] (\<lambda>j. lev_cell str1 str2 (Suc i) j) m = Some m' \<and>
               lev_outer_inv str1 str2 (Suc (Suc i)) m'"
proof -
  let ?J = "lev_inner_inv str1 str2 (Suc i)"
  have start: "?J 1 m"
    using inv i by (simp add: lev_outer_inv_def lev_inner_inv_def)
  have step: "\<exists>m'. lev_cell str1 str2 (Suc i) j m = Some m' \<and> ?J (Suc j) m'"
    if "1 \<le> j" "j < Suc (length str1)" "?J j m" for j m
  proof -
    from that(1) obtain j' where j': "j = Suc j'" by (cases j) auto
    with that show ?thesis using lev_cell_step[of str1 str2 i j' m] i by simp
  qed
  have "\<exists>m'. for_each [1..<Suc (length str1)] (\<lambda>j. lev_cell str1 str2 (Suc i) j) m = Some m' \<and>
             ?J (Suc (length str1)) m'"
    by (rule for_each_upt[where I = ?J, OF _ start step]) simp_all
  then obtain m' where m': "for_each [1..<Suc (length str1)] (\<lambda>j. lev_cell str1 str2 (Suc i) j) m = Some m'"
    "?J (Suc (length str1)) m'" by blast
  from m'(2) have "lev_outer_inv str1 str2 (Suc (Suc i)) m'"
    by (auto simp: lev_outer_inv_def lev_inner_inv_def lev_row_def less_Suc_eq simp del: upt_Suc)
  with m'(1) show ?thesis by blast
qed

lemma lev_fill_inv:
  assumes "lev_outer_inv str1 str2 1 m"
  shows "\<exists>m'. lev_fill str1 str2 m = Some m' \<and> lev_outer_inv str1 str2 (Suc (length str2)) m'"
proof -
  let ?I = "lev_outer_inv str1 str2"
  have step: "\<exists>m'. for_each [1..<Suc (length str1)] (\<lambda>j. lev_cell str1 str2 i j) m = Some m' \<and> ?I (Suc i) m'"
    if "1 \<le> i" "i < Suc (length str2)" "?I i m" for i m
  proof -
    from that(1) obtain i' where "i = Suc i'" by (cases i) auto
    with that show ?thesis using lev_inner_loop[of str1 str2 i' m] by simp
  qed
  show ?thesis unfolding lev_fill_def
    by (rule for_each_upt[where I = ?I, OF _ assms step]) simp_all
qed

lemma lev_start_inv:
  "lev_outer_inv str1 str2 1 ([0..<Suc (length str1)] # map (\<lambda>k. [k]) [1..<Suc (length str2)])"
  unfolding lev_outer_inv_def lev_row_def
proof (intro conjI allI impI)
  show "length ([0..<Suc (length str1)] # map (\<lambda>k. [k]) [1..<Suc (length str2)]) = Suc (length str2)"
    by (simp del: upt_Suc)
  fix k :: nat assume "k < 1"
  then have "k = 0" by simp
  moreover have "map (pd str1 str2 0) [0..<Suc (length str1)] = [0..<Suc (length str1)]"
    by (intro map_idI) auto
  ultimately show "([0..<Suc (length str1)] # map (\<lambda>k. [k]) [1..<Suc (length str2)]) ! k =
      map (pd str1 str2 k) [0..<Suc (length str1)]"
    by (simp del: upt_Suc)
next
  fix k :: nat assume k: "1 \<le> k \<and> k \<le> length str2"
  then obtain k' where k': "k = Suc k'" by (cases k) auto
  with k have "k' < length [1..<Suc (length str2)]" by simp
  with k k' show "([0..<Suc (length str1)] # map (\<lambda>k. [k]) [1..<Suc (length str2)]) ! k = [k]"
    by (simp del: upt_Suc)
qed

lemma levenshteinDistance_pd:
  "levenshteinDistance str1 str2 = Some (pd str1 str2 (length str2) (length str1))"
proof -
  from lev_fill_inv[OF lev_start_inv, of str1 str2] obtain m3 where
    m3: "lev_fill str1 str2 ([0..<Suc (length str1)] # map (\<lambda>k. [k]) [1..<Suc (length str2)]) = Some m3"
    and inv: "lev_outer_inv str1 str2 (Suc (length str2)) m3" by blast
  from inv have "length m3 = Suc (length str2)" "m3 ! length str2 = lev_row str1 str2 (length str2)"
    by (simp_all add: lev_outer_inv_def)
  then have "cell m3 (length str2) (length str1) = Some (pd str1 str2 (length str2) (length str1))"
    by (simp add: cell_Some lev_row_def del: upt_Suc)
  with m3 show ?thesis
    by (simp add: levenshteinDistance_def lev_rows_eq lev_cols_eq del: upt_Suc)
qed

lemma edit_op_rev: "edit_op s t \<Longrightarrow> edit_op (rev s) (rev t)"
proof (induction rule: edit_op.induct)
  case (insert_op u v c) show ?case using edit_op.insert_op[of "rev v" "rev u" c] by simp
next
  case (delete_op u c v) show ?case using edit_op.delete_op[of "rev v" c "rev u"] by simp
next
  case (substitute_op u a v b) show ?case using edit_op.substitute_op[of "rev v" a "rev u" b] by simp
qed

lemma edits_rev: "edits n s t \<Longrightarrow> edits n (rev s) (rev t)"
  by (induction rule: edits.induct) (auto intro: edits.intros edit_op_rev)

lemma ed_rev: "ed (rev s) (rev t) = ed s t"
proof (rule antisym)
  show "ed (rev s) (rev t) \<le> ed s t"
    using edits_lower[OF edits_rev[OF edits_upper[of s t]]] .
  show "ed s t \<le> ed (rev s) (rev t)"
    using edits_lower[OF edits_rev[OF edits_upper[of "rev s" "rev t"]]] by simp
qed

lemma levenshteinDistance_ed: "levenshteinDistance str1 str2 = Some (ed str1 str2)"
  by (simp add: levenshteinDistance_pd pd_def ed_rev ed_sym[of str2 str1])

lemma ed_le_max: "ed xs ys \<le> max (length xs) (length ys)"
  by (induction xs ys rule: ed.induct) (auto simp: min_def max_def)

subsection \<open>Line similarity\<close>

lemma calculateLineSimilarity_ed:
  "calculateLineSimilarity s1 s2 =
     Some (if s1 = [] \<and> s2 = [] then 1
           else (real (max (length s1) (length s2)) - real (ed s1 s2)) /
                real (max (length s1) (length s2)))"
proof (cases "length s1 > length s2")
  case True
  then show ?thesis
    by (auto simp: calculateLineSimilarity_def levenshteinDistance_ed max_def)
next
  case False
  then show ?thesis
    by (auto simp: calculateLineSimilarity_def levenshteinDistance_ed max_def ed_sym[of s2 s1])
qed

lemma edit_distance_attained: "edits (edit_distance s t) s t"
  by (simp add: edit_distance_ed edits_upper)

lemma edit_distance_least: "edits n s t \<Longrightarrow> edit_distance s t \<le> n"
  by (simp add: edit_distance_ed edits_lower)

lemma line_similarity_range:
  assumes "calculateLineSimilarity s1 s2 = Some r"
  shows "0 \<le> r \<and> r \<le> 1"
proof (cases "s1 = [] \<and> s2 = []")
  case True
  with assms show ?thesis by (simp add: calculateLineSimilarity_ed)
next
  case False
  let ?L = "max (length s1) (length s2)"
  from False have L: "0 < ?L" by (auto simp: max_def)
  have d: "ed s1 s2 \<le> ?L" by (rule ed_le_max)
  from assms False have r: "r = (real ?L - real (ed s1 s2)) / real ?L"
    by (simp add: calculateLineSimilarity_ed)
  have "0 \<le> real ?L - real (ed s1 s2)" using d by simp
  moreover have "real ?L - real (ed s1 s2) \<le> real ?L" by simp
  ultimately show ?thesis using L unfolding r by (simp add: divide_le_eq_1 del: of_nat_max)
qed

text \<open>
  C5. For all strings, the similarity of \<open>calculateLineSimilarity\<close> is the length of the
  longer string minus the edit distance, divided by the length of the longer string, where
  the edit distance is the least number of single-character insertions, deletions and
  substitutions that turn one string into the other. It is 1 when both strings are empty
  and 0 when exactly one of them is.
\<close>
theorem line_similarity_is_levenshtein:
  "calculateLineSimilarity s1 s2 =
     Some (if s1 = [] \<and> s2 = [] then 1
           else (real (max (length s1) (length s2)) - real (edit_distance s1 s2)) /
                real (max (length s1) (length s2))) \<and>
   edits (edit_distance s1 s2) s1 s2 \<and>
   (\<forall>n. edits n s1 s2 \<longrightarrow> edit_distance s1 s2 \<le> n) \<and>
   (s1 = [] \<and> s2 = [] \<longrightarrow> calculateLineSimilarity s1 s2 = Some 1) \<and>
   ((s1 = []) \<noteq> (s2 = []) \<longrightarrow> calculateLineSimilarity s1 s2 = Some 0)"
proof (intro conjI allI impI)
  show "calculateLineSimilarity s1 s2 =
     Some (if s1 = [] \<and> s2 = [] then 1
           else (real (max (length s1) (length s2)) - real (edit_distance s1 s2)) /
                real (max (length s1) (length s2)))"
    by (simp only: calculateLineSimilarity_ed edit_distance_ed)
  show "edits (edit_distance s1 s2) s1 s2" by (rule edit_distance_attained)
  show "edit_distance s1 s2 \<le> n" if "edits n s1 s2" for n using that by (rule edit_distance_least)
  show "calculateLineSimilarity s1 s2 = Some 1" if "s1 = [] \<and> s2 = []"
    using that by (simp add: calculateLineSimilarity_ed)
  show "calculateLineSimilarity s1 s2 = Some 0" if "(s1 = []) \<noteq> (s2 = [])"
    using that by (auto simp: calculateLineSimilarity_ed)
qed

theorem line_similarity_is_levenshtein_witness:
  "calculateLineSimilarity ''ab'' ''cb'' = Some (1 / 2) \<and> edit_distance ''ab'' ''cb'' = 1 \<and>
   calculateLineSimilarity ''ab'' '''' = Some 0 \<and>
   calculateLineSimilarity ([] :: string) [] = Some 1"
proof -
  have one: "edits 1 ''ab'' ''cb''"
    using edits_more[OF edits_none substitute_op[of "[]" "CHR ''a''" "''b''" "CHR ''c''"]] by simp
  have "edit_distance ''ab'' ''cb'' \<noteq> 0"
  proof
    assume "edit_distance ''ab'' ''cb'' = 0"
    with line_similarity_is_levenshtein[of "''ab''" "''cb''"] have "edits 0 ''ab'' ''cb''" by simp
    then show False by (cases rule: edits.cases) simp
  qed
  moreover have "edit_distance ''ab'' ''cb'' \<le> 1"
    using line_similarity_is_levenshtein[of "''ab''" "''cb''"] one by blast
  ultimately have d: "edit_distance ''ab'' ''cb'' = 1" by simp
  have a: "calculateLineSimilarity ''ab'' ''cb'' = Some (1 / 2)"
    using line_similarity_is_levenshtein[of "''ab''" "''cb''", THEN conjunct1] d by simp
  have b: "calculateLineSimilarity ''ab'' '''' = Some 0"
    using line_similarity_is_levenshtein[of "''ab''" "''''",
        THEN conjunct2, THEN conjunct2, THEN conjunct2, THEN conjunct2] by simp
  have c: "calculateLineSimilarity ([] :: string) [] = Some 1"
    using line_similarity_is_levenshtein[of "[] :: string" "[]",
        THEN conjunct2, THEN conjunct2, THEN conjunct2, THEN conjunct1] by simp
  from a b c d show ?thesis by simp
qed

subsection \<open>Threshold\<close>

text \<open>
  C3. The token-overlap threshold is a function of the overall score alone: 0.20 from 0.8
  upwards, 0.30 on \<open>[0.6, 0.8)\<close>, 0.40 on \<open>[0.4, 0.6)\<close> and 0.50 below 0.4; the
  boundaries 0.8, 0.6 and 0.4 give 0.20, 0.30 and 0.40.
\<close>
theorem threshold_table:
  "(overallScore \<ge> 0.8 \<longrightarrow> threshold overallScore = 0.20) \<and>
   (0.6 \<le> overallScore \<and> overallScore < 0.8 \<longrightarrow> threshold overallScore = 0.30) \<and>
   (0.4 \<le> overallScore \<and> overallScore < 0.6 \<longrightarrow> threshold overallScore = 0.40) \<and>
   (overallScore < 0.4 \<longrightarrow> threshold overallScore = 0.50) \<and>
   threshold 0.8 = 0.20 \<and> threshold 0.6 = 0.30 \<and> threshold 0.4 = 0.40"
  by (simp add: threshold_def)

theorem threshold_table_witness:
  "threshold 0.85 = 0.20 \<and> threshold 0.65 = 0.30 \<and> threshold 0.45 = 0.40 \<and> threshold 0.10 = 0.50"
  using threshold_table[of "0.85"] threshold_table[of "0.65"] threshold_table[of "0.45"]
    threshold_table[of "0.10"]
  by simp

subsection \<open>Token similarity\<close>

lemma token_similarity_sets:
  "calculateTokenSimilarity tokens1 tokens2 =
     (if set tokens1 \<union> set tokens2 = {} then 0
      else real (card (set tokens1 \<inter> set tokens2)) / real (card (set tokens1 \<union> set tokens2)))"
proof -
  have "Set.filter (\<lambda>x. x \<in> set tokens2) (set tokens1) = set tokens1 \<inter> set tokens2" by auto
  then show ?thesis by (auto simp: calculateTokenSimilarity_def Let_def card_gt_0_iff)
qed

text \<open>
  C9. The Jaccard similarity of two token lists, and so of the token lists of two
  documents, does not depend on the order of the two.
\<close>
theorem jaccard_symmetric:
  "calculateTokenSimilarity tokens1 tokens2 = calculateTokenSimilarity tokens2 tokens1 \<and>
   calculateTokenSimilarity (tokenize A) (tokenize B) =
     calculateTokenSimilarity (tokenize B) (tokenize A)"
  by (simp add: token_similarity_sets Int_commute Un_commute)

text \<open>
  C4 as stated fails: the document \<open>ab\<close> is not empty, but it has no token of more than
  two characters, so both token sets are empty and the guard on the empty union gives 0.
\<close>
theorem jaccard_self_counterexample:
  "\<not> (''ab'' \<noteq> [] \<longrightarrow> calculateTokenSimilarity (tokenize ''ab'') (tokenize ''ab'') = 1)"
  by (simp add: calculateTokenSimilarity_def tokenize_def toLowerCase_def lower_char_def
      special_char_def is_space_def)

text \<open>
  C4. A document that has at least one token has the Jaccard similarity 1 with itself.
\<close>
theorem jaccard_self:
  "tokenize A \<noteq> [] \<Longrightarrow> calculateTokenSimilarity (tokenize A) (tokenize A) = 1"
  by (simp add: token_similarity_sets card_gt_0_iff)

theorem jaccard_self_witness:
  "tokenize ''abc'' \<noteq> [] \<and> calculateTokenSimilarity (tokenize ''abc'') (tokenize ''abc'') = 1"
proof -
  have t: "tokenize ''abc'' \<noteq> []"
    by (simp add: tokenize_def toLowerCase_def lower_char_def special_char_def is_space_def)
  from jaccard_self[OF t] t show ?thesis by simp
qed

subsection \<open>Scores lie between 0 and 1\<close>

lemma token_similarity_range:
  "0 \<le> calculateTokenSimilarity t1 t2 \<and> calculateTokenSimilarity t1 t2 \<le> 1"
proof -
  have "card (set t1 \<inter> set t2) \<le> card (set t1 \<union> set t2)"
    by (rule card_mono) auto
  then show ?thesis by (auto simp: token_similarity_sets divide_le_eq_1 card_gt_0_iff)
qed

lemma exact_similarity_range:
  "0 \<le> calculateExactSimilarity s1 s2 \<and> calculateExactSimilarity s1 s2 \<le> 1"
proof -
  have "real (min a b) / real (max a b) \<le> 1" for a b :: nat
    by (auto simp: divide_le_eq_1 min_def max_def)
  then show ?thesis by (simp add: calculateExactSimilarity_def Let_def)
qed

text \<open>
  C7. The three scorers stay between 0 and 1 on all inputs: the Jaccard similarity of the
  token sets, the exact-or-containment similarity of two lines, and the similarity
  derived from the edit distance, which is always computed.
\<close>
theorem scorers_in_unit_interval:
  "0 \<le> calculateTokenSimilarity tokens1 tokens2 \<and>
   calculateTokenSimilarity tokens1 tokens2 \<le> 1 \<and>
   0 \<le> calculateTokenSimilarity (tokenize A) (tokenize B) \<and>
   calculateTokenSimilarity (tokenize A) (tokenize B) \<le> 1 \<and>
   0 \<le> calculateExactSimilarity s1 s2 \<and> calculateExactSimilarity s1 s2 \<le> 1 \<and>
   (\<exists>r. calculateLineSimilarity s1 s2 = Some r \<and> 0 \<le> r \<and> r \<le> 1)"
  using token_similarity_range[of tokens1 tokens2]
    token_similarity_range[of "tokenize A" "tokenize B"] exact_similarity_range[of s1 s2]
    line_similarity_range[of s1 s2] by (simp add: calculateLineSimilarity_ed)

subsection \<open>Line match data\<close>

lemma split_not_Nil [simp]: "split sep xs \<noteq> []"
  by (induction xs) (simp_all add: Let_def)

lemma length_split_lines: "1 \<le> length (split_lines text)"
  by (simp add: split_lines_def Suc_le_eq)

lemma line_sims_finite:
  "finite {r. \<exists>l\<in>set ls. trim l \<noteq> [] \<and> calculateLineSimilarity t (trim l) = Some r}"
proof -
  have "{r. \<exists>l\<in>set ls. trim l \<noteq> [] \<and> calculateLineSimilarity t (trim l) = Some r}
      \<subseteq> (\<lambda>l. the (calculateLineSimilarity t (trim l))) ` set ls"
    by force
  then show ?thesis by (rule finite_subset) simp
qed

lemma Max_insert_update:
  fixes m s :: real
  assumes "finite S"
  shows "Max (insert (if s > m then s else m) S) = Max (insert m (insert s S))"
proof (cases "S = {}")
  case True
  then show ?thesis by (simp add: max_def)
next
  case False
  with assms show ?thesis by (auto simp: max_def)
qed

lemma scan_lines2_eq:
  "scan_lines2 t ls (m, h) =
     Some (Max (insert m {r. \<exists>l\<in>set ls. trim l \<noteq> [] \<and> calculateLineSimilarity t (trim l) = Some r}),
           h \<or> (\<exists>l\<in>set ls. trim l \<noteq> [] \<and>
                  (\<exists>r. calculateLineSimilarity t (trim l) = Some r \<and> r \<ge> 0.8)))"
proof (induction ls arbitrary: m h)
  case Nil
  show ?case by simp
next
  case (Cons l ls)
  let ?S = "\<lambda>ls. {r. \<exists>l\<in>set ls. trim l \<noteq> [] \<and> calculateLineSimilarity t (trim l) = Some r}"
  show ?case
  proof (cases "trim l = []")
    case True
    then have "?S (l # ls) = ?S ls" by auto
    with True Cons show ?thesis by simp
  next
    case False
    obtain s where s: "calculateLineSimilarity t (trim l) = Some s"
      by (simp add: calculateLineSimilarity_ed)
    have S: "?S (l # ls) = insert s (?S ls)" using False s by auto
    have fin: "finite (?S ls)" by (rule line_sims_finite)
    have "Max (insert (if s > m then s else m) (?S ls)) = Max (insert m (insert s (?S ls)))"
      using fin by (rule Max_insert_update)
    with False s S Cons[of "if s > m then s else m" "if s \<ge> 0.8 then True else h"]
    show ?thesis by auto
  qed
qed

lemma scan_lines1_eq:
  "scan_lines1 ls idx lines2 acc =
     Some (acc @ map (\<lambda>(i, l).
       if trim l = [] then \<lparr>line = i + 1, similarity = 0, matched = False\<rparr>
       else \<lparr>line = i + 1,
             similarity = Max (insert 0 {r. \<exists>l2\<in>set lines2. trim l2 \<noteq> [] \<and>
                                 calculateLineSimilarity (trim l) (trim l2) = Some r}),
             matched = (\<exists>l2\<in>set lines2. trim l2 \<noteq> [] \<and>
                  (\<exists>r. calculateLineSimilarity (trim l) (trim l2) = Some r \<and> r \<ge> 0.8))\<rparr>)
       (enumerate idx ls))"
proof (induction ls arbitrary: idx acc)
  case Nil
  show ?case by simp
next
  case (Cons l ls)
  show ?case
    by (cases "trim l = []") (simp_all add: Cons scan_lines2_eq Let_def)
qed

lemma calculateLineMatchData_eq:
  "calculateLineMatchData content1 content2 =
     Some (map (\<lambda>(i, l).
       if trim l = [] then \<lparr>line = i + 1, similarity = 0, matched = False\<rparr>
       else \<lparr>line = i + 1,
             similarity = Max (insert 0 {r. \<exists>l2\<in>set (split_lines content2). trim l2 \<noteq> [] \<and>
                                 calculateLineSimilarity (trim l) (trim l2) = Some r}),
             matched = (\<exists>l2\<in>set (split_lines content2). trim l2 \<noteq> [] \<and>
                  (\<exists>r. calculateLineSimilarity (trim l) (trim l2) = Some r \<and> r \<ge> 0.8))\<rparr>)
       (enumerate 0 (split_lines content1)))"
  by (simp add: calculateLineMatchData_def Let_def scan_lines1_eq)

lemma Max_sims_ge:
  fixes S :: "real set"
  assumes "finite S"
  shows "Max (insert 0 S) \<ge> 0.8 \<longleftrightarrow> (\<exists>r\<in>S. r \<ge> 0.8)"
proof -
  have "Max (insert 0 S) \<ge> 0.8 \<longleftrightarrow> (\<exists>r\<in>insert 0 S. r \<ge> 0.8)"
    using assms by (subst Max_ge_iff) auto
  then show ?thesis by simp
qed

lemma Max_sims_range:
  fixes S :: "real set"
  assumes "finite S" "\<forall>r\<in>S. 0 \<le> r \<and> r \<le> 1"
  shows "0 \<le> Max (insert 0 S) \<and> Max (insert 0 S) \<le> 1"
proof -
  have "Max (insert 0 S) \<in> insert 0 S" using assms(1) by (intro Max_in) auto
  with assms(2) show ?thesis by auto
qed

text \<open>
  C1. \<open>calculateLineMatchData\<close> returns one record for each line of the first submission,
  in order and numbered from 1. A line that is empty after trimming gets the similarity 0
  and is not matched. Any other line gets the largest line similarity of its trimmed text
  against the trimmed non-empty lines of the second submission, or 0 when there is none,
  and it is matched exactly when one of these similarities is at least 0.8, which is
  exactly when the stored similarity is at least 0.8.
\<close>
theorem line_match_data:
  "\<exists>matchData. calculateLineMatchData content1 content2 = Some matchData \<and>
     length matchData = length (split_lines content1) \<and>
     (\<forall>i<length matchData.
        line (matchData ! i) = i + 1 \<and>
        (let t = trim (split_lines content1 ! i);
             sims = {r. \<exists>l2\<in>set (split_lines content2). trim l2 \<noteq> [] \<and>
                        calculateLineSimilarity t (trim l2) = Some r}
         in (t = [] \<longrightarrow> similarity (matchData ! i) = 0 \<and> \<not> matched (matchData ! i)) \<and>
            (t \<noteq> [] \<longrightarrow>
               similarity (matchData ! i) = Max (insert 0 sims) \<and>
               (matched (matchData ! i) \<longleftrightarrow> (\<exists>r\<in>sims. r \<ge> 0.8)) \<and>
               (matched (matchData ! i) \<longleftrightarrow> similarity (matchData ! i) \<ge> 0.8))))"
proof -
  let ?sims = "\<lambda>t. {r. \<exists>l2\<in>set (split_lines content2). trim l2 \<noteq> [] \<and>
                        calculateLineSimilarity t (trim l2) = Some r}"
  let ?rec = "\<lambda>(i, l).
       if trim l = [] then \<lparr>line = i + 1, similarity = 0, matched = False\<rparr>
       else \<lparr>line = i + 1, similarity = Max (insert 0 (?sims (trim l))),
             matched = (\<exists>l2\<in>set (split_lines content2). trim l2 \<noteq> [] \<and>
                  (\<exists>r. calculateLineSimilarity (trim l) (trim l2) = Some r \<and> r \<ge> 0.8))\<rparr>"
  let ?md = "map ?rec (enumerate 0 (split_lines content1))"
  have run: "calculateLineMatchData content1 content2 = Some ?md"
    by (rule calculateLineMatchData_eq)
  have len: "length ?md = length (split_lines content1)" by simp
  have each: "line (?md ! i) = i + 1 \<and>
        (let t = trim (split_lines content1 ! i); sims = ?sims t
         in (t = [] \<longrightarrow> similarity (?md ! i) = 0 \<and> \<not> matched (?md ! i)) \<and>
            (t \<noteq> [] \<longrightarrow>
               similarity (?md ! i) = Max (insert 0 sims) \<and>
               (matched (?md ! i) \<longleftrightarrow> (\<exists>r\<in>sims. r \<ge> 0.8)) \<and>
               (matched (?md ! i) \<longleftrightarrow> similarity (?md ! i) \<ge> 0.8)))"
    if i: "i < length ?md" for i
  proof -
    let ?l = "split_lines content1 ! i"
    from i have nth: "?md ! i = ?rec (i, ?l)" by (simp add: nth_enumerate_eq)
    show ?thesis
    proof (cases "trim ?l = []")
      case True
      with nth show ?thesis by (simp add: Let_def)
    next
      case False
      have m: "(\<exists>l2\<in>set (split_lines content2). trim l2 \<noteq> [] \<and>
                  (\<exists>r. calculateLineSimilarity (trim ?l) (trim l2) = Some r \<and> r \<ge> 0.8))
               \<longleftrightarrow> (\<exists>r\<in>?sims (trim ?l). r \<ge> 0.8)" by blast
      have g: "Max (insert 0 (?sims (trim ?l))) \<ge> 0.8 \<longleftrightarrow> (\<exists>r\<in>?sims (trim ?l). r \<ge> 0.8)"
        by (rule Max_sims_ge) (rule line_sims_finite)
      from False nth m g show ?thesis by (simp add: Let_def)
    qed
  qed
  from run len each show ?thesis by blast
qed

theorem line_match_data_witness:
  "\<exists>md. calculateLineMatchData [CHR ''a'', CHR ''b'', CHR 0x0A, CHR 0x20] ''ab'' = Some md \<and>
     length md = 2 \<and>
     line (md ! 0) = 1 \<and> similarity (md ! 0) = 1 \<and> matched (md ! 0) \<and>
     line (md ! 1) = 2 \<and> similarity (md ! 1) = 0 \<and> \<not> matched (md ! 1)"
proof -
  let ?c1 = "[CHR ''a'', CHR ''b'', CHR 0x0A, CHR 0x20]"
  have s1: "split_lines ?c1 = [''ab'', '' '']" by (simp add: split_lines_def)
  have s2: "split_lines ''ab'' = [''ab'']" by (simp add: split_lines_def)
  have t1: "trim ''ab'' = ''ab''" by (simp add: trim_def is_space_def)
  have t2: "trim '' '' = []" by (simp add: trim_def is_space_def)
  have sim: "calculateLineSimilarity ''ab'' ''ab'' = Some 1"
    by (simp add: calculateLineSimilarity_ed)
  have sims: "{r. \<exists>l2\<in>set (split_lines ''ab''). trim l2 \<noteq> [] \<and>
                 calculateLineSimilarity ''ab'' (trim l2) = Some r} = {1}"
    by (auto simp: s2 t1 sim)
  obtain md where md: "calculateLineMatchData ?c1 ''ab'' = Some md \<and>
     length md = length (split_lines ?c1) \<and>
     (\<forall>i<length md.
        line (md ! i) = i + 1 \<and>
        (let t = trim (split_lines ?c1 ! i);
             sims = {r. \<exists>l2\<in>set (split_lines ''ab''). trim l2 \<noteq> [] \<and>
                        calculateLineSimilarity t (trim l2) = Some r}
         in (t = [] \<longrightarrow> similarity (md ! i) = 0 \<and> \<not> matched (md ! i)) \<and>
            (t \<noteq> [] \<longrightarrow>
               similarity (md ! i) = Max (insert 0 sims) \<and>
               (matched (md ! i) \<longleftrightarrow> (\<exists>r\<in>sims. r \<ge> 0.8)) \<and>
               (matched (md ! i) \<longleftrightarrow> similarity (md ! i) \<ge> 0.8))))"
    using line_match_data[of ?c1 "''ab''"] ..
  note run = md[THEN conjunct1]
  have len2: "length md = 2" using md[THEN conjunct2, THEN conjunct1] unfolding s1 by simp
  note each = md[THEN conjunct2, THEN conjunct2]
  have i0: "0 < length md" and i1: "1 < length md" using len2 by simp_all
  have r0: "line (md ! 0) = 1 \<and> similarity (md ! 0) = 1 \<and> matched (md ! 0)"
    using each[THEN spec, of 0, THEN mp, OF i0] unfolding s1 Let_def
    by (simp add: t1 sims)
  have r1: "line (md ! 1) = 2 \<and> similarity (md ! 1) = 0 \<and> \<not> matched (md ! 1)"
    using each[THEN spec, of 1, THEN mp, OF i1] unfolding s1 Let_def
    by (simp add: t2)
  from run len2 r0 r1 show ?thesis by blast
qed

subsection \<open>Distribution and summary counts\<close>

lemma count_range_total:
  "exact (count_range r d) + high (count_range r d) + medium (count_range r d) +
   low (count_range r d) + none (count_range r d) =
   Suc (exact r + high r + medium r + low r + none r)"
  by (simp add: count_range_def)

lemma foldl_count_range_total:
  "exact (foldl count_range r md) + high (foldl count_range r md) +
   medium (foldl count_range r md) + low (foldl count_range r md) +
   none (foldl count_range r md) =
   exact r + high r + medium r + low r + none r + length md"
  by (induction md arbitrary: r) (simp_all add: count_range_total)

lemma foldl_count_range_exact:
  "exact (foldl count_range r md) = exact r + length (filter (\<lambda>d. similarity d \<ge> 0.9) md)"
  by (induction md arbitrary: r) (simp_all add: count_range_def)

lemma foldl_count_range_high:
  "high (foldl count_range r md) =
     high r + length (filter (\<lambda>d. 0.7 \<le> similarity d \<and> similarity d < 0.9) md)"
  by (induction md arbitrary: r) (simp_all add: count_range_def)

lemma foldl_count_range_medium:
  "medium (foldl count_range r md) =
     medium r + length (filter (\<lambda>d. 0.4 \<le> similarity d \<and> similarity d < 0.7) md)"
  by (induction md arbitrary: r) (simp_all add: count_range_def)

lemma foldl_count_range_low:
  "low (foldl count_range r md) =
     low r + length (filter (\<lambda>d. 0 < similarity d \<and> similarity d < 0.4) md)"
  by (induction md arbitrary: r) (simp_all add: count_range_def)

lemma foldl_count_range_none:
  "none (foldl count_range r md) = none r + length (filter (\<lambda>d. similarity d \<le> 0) md)"
  by (induction md arbitrary: r) (auto simp: count_range_def)

lemma match_data_similarity_range:
  assumes "calculateLineMatchData content1 content2 = Some md" "d \<in> set md"
  shows "0 \<le> similarity d \<and> similarity d \<le> 1"
proof -
  let ?sims = "\<lambda>t. {r. \<exists>l2\<in>set (split_lines content2). trim l2 \<noteq> [] \<and>
                        calculateLineSimilarity t (trim l2) = Some r}"
  have rng: "0 \<le> Max (insert 0 (?sims t)) \<and> Max (insert 0 (?sims t)) \<le> 1" for t
    by (rule Max_sims_range) (auto simp: line_sims_finite dest: line_similarity_range)
  from assms show ?thesis
    unfolding calculateLineMatchData_eq using rng by (auto split: if_splits)
qed

lemma match_data_length:
  "calculateLineMatchData content1 content2 = Some md \<Longrightarrow> length md = length (split_lines content1)"
  unfolding calculateLineMatchData_eq by auto

text \<open>
  C2. For every sequence of line-match records the five counts add up to the number of
  records. When the similarities lie between 0 and 1, as they do in every record of
  \<open>calculateLineMatchData\<close>, the counts are those of the records in \<open>[0.9, 1]\<close>,
  \<open>[0.7, 0.9)\<close>, \<open>[0.4, 0.7)\<close>, \<open>(0, 0.4)\<close> and \<open>{0}\<close>. The distribution of two
  submissions is the count over their line-match records, so its counts add up to the
  number of lines of the first submission.
\<close>
theorem distribution_buckets:
  "exact (count_ranges md) + high (count_ranges md) + medium (count_ranges md) +
     low (count_ranges md) + none (count_ranges md) = totalLines md \<and>
   ((\<forall>d\<in>set md. 0 \<le> similarity d \<and> similarity d \<le> 1) \<longrightarrow>
      exact (count_ranges md) = length (filter (\<lambda>d. 0.9 \<le> similarity d \<and> similarity d \<le> 1) md) \<and>
      high (count_ranges md) = length (filter (\<lambda>d. 0.7 \<le> similarity d \<and> similarity d < 0.9) md) \<and>
      medium (count_ranges md) = length (filter (\<lambda>d. 0.4 \<le> similarity d \<and> similarity d < 0.7) md) \<and>
      low (count_ranges md) = length (filter (\<lambda>d. 0 < similarity d \<and> similarity d < 0.4) md) \<and>
      none (count_ranges md) = length (filter (\<lambda>d. similarity d = 0) md)) \<and>
   (calculateLineMatchData content1 content2 = Some md \<longrightarrow>
      calculateSimilarityDistribution content1 content2 = Some (count_ranges md) \<and>
      totalLines md = length (split_lines content1) \<and>
      (\<forall>d\<in>set md. 0 \<le> similarity d \<and> similarity d \<le> 1))"
proof (intro conjI impI)
  show "exact (count_ranges md) + high (count_ranges md) + medium (count_ranges md) +
     low (count_ranges md) + none (count_ranges md) = totalLines md"
    by (simp add: count_ranges_def totalLines_def foldl_count_range_total)
next
  assume rng: "\<forall>d\<in>set md. 0 \<le> similarity d \<and> similarity d \<le> 1"
  have e: "filter (\<lambda>d. 0.9 \<le> similarity d \<and> similarity d \<le> 1) md = filter (\<lambda>d. similarity d \<ge> 0.9) md"
    using rng by (intro filter_cong) auto
  have n: "filter (\<lambda>d. similarity d = 0) md = filter (\<lambda>d. similarity d \<le> 0) md"
    using rng by (intro filter_cong) auto
  show "exact (count_ranges md) = length (filter (\<lambda>d. 0.9 \<le> similarity d \<and> similarity d \<le> 1) md)"
    unfolding e by (simp add: count_ranges_def foldl_count_range_exact)
  show "high (count_ranges md) = length (filter (\<lambda>d. 0.7 \<le> similarity d \<and> similarity d < 0.9) md)"
    by (simp add: count_ranges_def foldl_count_range_high)
  show "medium (count_ranges md) = length (filter (\<lambda>d. 0.4 \<le> similarity d \<and> similarity d < 0.7) md)"
    by (simp add: count_ranges_def foldl_count_range_medium)
  show "low (count_ranges md) = length (filter (\<lambda>d. 0 < similarity d \<and> similarity d < 0.4) md)"
    by (simp add: count_ranges_def foldl_count_range_low)
  show "none (count_ranges md) = length (filter (\<lambda>d. similarity d = 0) md)"
    unfolding n by (simp add: count_ranges_def foldl_count_range_none)
next
  assume run: "calculateLineMatchData content1 content2 = Some md"
  show "calculateSimilarityDistribution content1 content2 = Some (count_ranges md)"
    by (simp add: calculateSimilarityDistribution_def run)
  show "totalLines md = length (split_lines content1)"
    using match_data_length[OF run] by (simp add: totalLines_def)
  show "\<forall>d\<in>set md. 0 \<le> similarity d \<and> similarity d \<le> 1"
    using match_data_similarity_range[OF run] by blast
qed

theorem distribution_buckets_witness:
  "calculateLineMatchData ''ab'' ''ab'' = Some [\<lparr>line = 1, similarity = 1, matched = True\<rparr>] \<and>
   calculateSimilarityDistribution ''ab'' ''ab'' =
     Some (count_ranges [\<lparr>line = 1, similarity = 1, matched = True\<rparr>]) \<and>
   exact (count_ranges [\<lparr>line = 1, similarity = 1, matched = True\<rparr>]) = 1 \<and>
   high (count_ranges [\<lparr>line = 1, similarity = 1, matched = True\<rparr>]) = 0 \<and>
   medium (count_ranges [\<lparr>line = 1, similarity = 1, matched = True\<rparr>]) = 0 \<and>
   low (count_ranges [\<lparr>line = 1, similarity = 1, matched = True\<rparr>]) = 0 \<and>
   none (count_ranges [\<lparr>line = 1, similarity = 1, matched = True\<rparr>]) = 0"
proof -
  let ?md = "[\<lparr>line = 1, similarity = 1, matched = True\<rparr>]"
  have sim: "calculateLineSimilarity ''ab'' ''ab'' = Some 1"
    by (simp add: calculateLineSimilarity_ed)
  have run: "calculateLineMatchData ''ab'' ''ab'' = Some ?md"
    by (simp add: calculateLineMatchData_def split_lines_def trim_def is_space_def sim)
  have rng: "\<forall>d\<in>set ?md. 0 \<le> similarity d \<and> similarity d \<le> 1" by simp
  note T = distribution_buckets[of ?md "''ab''" "''ab''"]
  note A = T[THEN conjunct2, THEN conjunct1, THEN mp, OF rng]
  note B = T[THEN conjunct2, THEN conjunct2, THEN mp, OF run]
  from A B run show ?thesis by simp
qed

text \<open>
  C8. The summary counts: \<open>totalLines\<close> is the number of line-match records,
  \<open>matchedLines\<close> the number of records that are matched, and \<open>matchPercentage\<close> is
  \<open>matchedLines / totalLines * 100\<close>, with the value 0 when there is no record.
\<close>
theorem match_percentage:
  "totalLines md = length md \<and>
   matchedLines md = card {i. i < length md \<and> matched (md ! i)} \<and>
   matchPercentage md =
     (if totalLines md = 0 then 0 else real (matchedLines md) / real (totalLines md) * 100) \<and>
   matchPercentage [] = 0"
  by (simp add: totalLines_def matchedLines_def matchPercentage_def length_filter_conv_card)

text \<open>
  C10. For all contents of the two submissions, the empty string among them,
  \<open>calculateLineMatchData\<close> returns at least one record. So \<open>matchPercentage\<close> is always
  the quotient, never the fallback 0 for no record, and each percentage of the
  distribution divides by a positive \<open>totalLines\<close>.
\<close>
theorem total_lines_positive:
  "\<exists>md. calculateLineMatchData content1 content2 = Some md \<and>
     1 \<le> totalLines md \<and>
     matchPercentage md = real (matchedLines md) / real (totalLines md) * 100 \<and>
     (\<forall>n. range_percentage n md = Some (real n / real (totalLines md) * 100))"
proof -
  obtain md where run: "calculateLineMatchData content1 content2 = Some md"
    by (simp add: calculateLineMatchData_eq)
  from match_data_length[OF run] length_split_lines[of content1]
  have "1 \<le> totalLines md" by (simp add: totalLines_def)
  with run show ?thesis by (auto simp: matchPercentage_def range_percentage_def)
qed

subsection \<open>Direct line matching\<close>

lemma take_length_prefix: "take (length n) xs = n \<longleftrightarrow> (\<exists>s. xs = n @ s)"
  by (metis append_eq_conv_conj append_take_drop_id)

lemma str_includes_iff: "str_includes hay needle \<longleftrightarrow> (\<exists>p s. hay = p @ needle @ s)"
proof (induction hay)
  case Nil
  show ?case by simp
next
  case (Cons h hs)
  have "(\<exists>p s. h # hs = p @ needle @ s) \<longleftrightarrow>
        (\<exists>s. h # hs = needle @ s) \<or> (\<exists>p s. hs = p @ needle @ s)"
  proof
    assume "\<exists>p s. h # hs = p @ needle @ s"
    then obtain p s where ps: "h # hs = p @ needle @ s" by blast
    show "(\<exists>s. h # hs = needle @ s) \<or> (\<exists>p s. hs = p @ needle @ s)"
    proof (cases p)
      case Nil
      with ps show ?thesis by auto
    next
      case (Cons a p')
      with ps have "hs = p' @ needle @ s" by simp
      then show ?thesis by blast
    qed
  next
    assume "(\<exists>s. h # hs = needle @ s) \<or> (\<exists>p s. hs = p @ needle @ s)"
    then show "\<exists>p s. h # hs = p @ needle @ s"
    proof
      assume "\<exists>s. h # hs = needle @ s"
      then obtain s where "h # hs = [] @ needle @ s" by auto
      then show ?thesis by blast
    next
      assume "\<exists>p s. hs = p @ needle @ s"
      then obtain p s where "h # hs = (h # p) @ needle @ s" by auto
      then show ?thesis by blast
    qed
  qed
  with Cons show ?case by (simp only: str_includes.simps take_length_prefix)
qed

lemma direct_match_iff:
  "direct_match t others \<longleftrightarrow>
     (\<exists>other\<in>set others. trim other \<noteq> [] \<and> calculateExactSimilarity t (trim other) \<ge> 0.80)"
  by (induction others) (auto simp: Let_def)

lemma direct_lines_eq:
  "direct_lines ls idx others acc =
     acc \<union> {idx + k | k. k < length ls \<and> trim (ls ! k) \<noteq> [] \<and> direct_match (trim (ls ! k)) others}"
proof (induction ls arbitrary: idx acc)
  case Nil
  show ?case by simp
next
  case (Cons l ls)
  let ?P = "\<lambda>xs k. k < length xs \<and> trim (xs ! k) \<noteq> [] \<and> direct_match (trim (xs ! k)) others"
  have shift: "{idx + k | k. ?P (l # ls) k} =
      (if ?P (l # ls) 0 then {idx} else {}) \<union> {Suc idx + k | k. ?P ls k}"
  proof (intro set_eqI iffI)
    fix x assume "x \<in> {idx + k | k. ?P (l # ls) k}"
    then obtain k where k: "x = idx + k" "?P (l # ls) k" by blast
    show "x \<in> (if ?P (l # ls) 0 then {idx} else {}) \<union> {Suc idx + k | k. ?P ls k}"
    proof (cases k)
      case 0
      with k show ?thesis by simp
    next
      case (Suc k')
      with k have "x = Suc idx + k'" "?P ls k'" by simp_all
      then show ?thesis by blast
    qed
  next
    fix x assume "x \<in> (if ?P (l # ls) 0 then {idx} else {}) \<union> {Suc idx + k | k. ?P ls k}"
    then consider "?P (l # ls) 0" "x = idx" | k where "x = Suc idx + k" "?P ls k"
      by (auto split: if_splits)
    then show "x \<in> {idx + k | k. ?P (l # ls) k}"
    proof cases
      case 1
      then have "x = idx + 0" "?P (l # ls) 0" by simp_all
      then show ?thesis by blast
    next
      case 2
      then have "x = idx + Suc k" "?P (l # ls) (Suc k)" by simp_all
      then show ?thesis by blast
    qed
  qed
  show ?case unfolding shift by (auto simp: Cons Let_def)
qed

lemma other_lines_nonempty:
  "(\<exists>other\<in>set (other_lines otherText). trim other \<noteq> [] \<and> P other) \<longleftrightarrow>
   (\<exists>other\<in>set (split_lines otherText). trim other \<noteq> [] \<and> P other)"
  by (simp add: other_lines_def split_lines_def trim_def)

text \<open>
  C6 as stated fails: with no matched segment \<open>highlightMatches\<close> returns before step 1.
  The only line of the text \<open>abc\<close> is not empty and equals the only line of the other
  submission \<open>abc\<close>, with similarity 1, and yet it is not recorded.
\<close>
theorem direct_line_matching_counterexample:
  "\<not> (0 \<in> step1 ([] :: unit list) ''abc'' ''abc'' \<longleftrightarrow>
        0 < length (split_lines ''abc'') \<and> trim (split_lines ''abc'' ! 0) \<noteq> [] \<and>
        ''abc'' \<in> set (split_lines ''abc'') \<and> trim ''abc'' \<noteq> [] \<and>
        calculateExactSimilarity (trim (split_lines ''abc'' ! 0)) (trim ''abc'') \<ge> 0.80)"
proof -
  have s: "split_lines ''abc'' = [''abc'']" by (simp add: split_lines_def)
  have t: "trim ''abc'' = ''abc''" by (simp add: trim_def is_space_def)
  have e: "calculateExactSimilarity ''abc'' ''abc'' = 1"
    by (simp add: calculateExactSimilarity_def)
  have "0 \<notin> step1 ([] :: unit list) ''abc'' ''abc''" by (simp add: step1_def)
  then show ?thesis by (simp add: s t e)
qed

text \<open>
  C6. In a call of \<open>highlightMatches\<close> with at least one matched segment, step 1 records
  a line exactly when the line is not empty after trimming and some line of the other
  submission, not empty after trimming either, has exact-or-containment similarity of at
  least 0.80 with it; with no segment, no line is recorded. That similarity is 1 when the
  two normalized lines are equal, the shorter length over the longer length when one
  normalized line occurs inside the other, and 0 otherwise.
\<close>
theorem direct_line_matching:
  "(i \<in> step1 segments text otherText \<longleftrightarrow>
      segments \<noteq> [] \<and>
      i < length (split_lines text) \<and> trim (split_lines text ! i) \<noteq> [] \<and>
      (\<exists>other\<in>set (split_lines otherText). trim other \<noteq> [] \<and>
         calculateExactSimilarity (trim (split_lines text ! i)) (trim other) \<ge> 0.80)) \<and>
   calculateExactSimilarity a b =
     (if normalize a = normalize b then 1
      else if (\<exists>p s. normalize a = p @ normalize b @ s) \<or> (\<exists>p s. normalize b = p @ normalize a @ s)
      then real (min (length (normalize a)) (length (normalize b))) /
           real (max (length (normalize a)) (length (normalize b)))
      else 0)"
proof
  let ?rhs = "i < length (split_lines text) \<and> trim (split_lines text ! i) \<noteq> [] \<and>
      (\<exists>other\<in>set (split_lines otherText). trim other \<noteq> [] \<and>
         calculateExactSimilarity (trim (split_lines text ! i)) (trim other) \<ge> 0.80)"
  show "i \<in> step1 segments text otherText \<longleftrightarrow> segments \<noteq> [] \<and> ?rhs"
  proof (cases "segments = []")
    case True
    then show ?thesis by (simp add: step1_def)
  next
    case False
    show ?thesis
    proof (cases "text = []")
      case True
      have "\<not> (i < length (split_lines []) \<and> trim (split_lines [] ! i) \<noteq> [])"
      proof
        assume i: "i < length (split_lines []) \<and> trim (split_lines [] ! i) \<noteq> []"
        then have "i = 0" by (simp add: split_lines_def)
        with i show False by (simp add: split_lines_def trim_def)
      qed
      with True show ?thesis by (simp add: step1_def)
    next
      case nonempty: False
      have "i \<in> direct_lines (split_lines text) 0 (other_lines otherText) {} \<longleftrightarrow> ?rhs"
        unfolding direct_lines_eq direct_match_iff other_lines_nonempty by auto
      with False nonempty show ?thesis by (simp add: step1_def)
    qed
  qed
  show "calculateExactSimilarity a b =
     (if normalize a = normalize b then 1
      else if (\<exists>p s. normalize a = p @ normalize b @ s) \<or> (\<exists>p s. normalize b = p @ normalize a @ s)
      then real (min (length (normalize a)) (length (normalize b))) /
           real (max (length (normalize a)) (length (normalize b)))
      else 0)"
    by (simp only: calculateExactSimilarity_def Let_def str_includes_iff)
qed

theorem direct_line_matching_witness:
  "0 \<in> step1 [()] ''Ab  c'' ''ab c'' \<and> 1 \<notin> step1 [()] ''Ab  c'' ''ab c'' \<and>
   0 \<notin> step1 ([] :: unit list) ''Ab  c'' ''ab c'' \<and>
   calculateExactSimilarity ''abcde'' ''bcde'' = 4 / 5"
proof -
  have n1: "normalize ''Ab  c'' = ''ab c''"
    by (simp add: normalize_def trim_def is_space_def toLowerCase_def lower_char_def char_of_def bit_Suc_0_iff)
  have n2: "normalize ''ab c'' = ''ab c''"
    by (simp add: normalize_def trim_def is_space_def toLowerCase_def lower_char_def char_of_def bit_Suc_0_iff)
  have t1: "trim ''Ab  c'' = ''Ab  c''" and t2: "trim ''ab c'' = ''ab c''"
    by (simp_all add: trim_def is_space_def)
  have s1: "split_lines ''Ab  c'' = [''Ab  c'']" and s2: "split_lines ''ab c'' = [''ab c'']"
    by (simp_all add: split_lines_def)
  have e: "calculateExactSimilarity ''Ab  c'' ''ab c'' = 1"
    using direct_line_matching[of 0 "[()]" "''Ab  c''" "''ab c''" "''Ab  c''" "''ab c''", THEN conjunct2]
    by (simp add: n1 n2)
  have a: "0 \<in> step1 [()] ''Ab  c'' ''ab c''"
    using direct_line_matching[of 0 "[()]" "''Ab  c''" "''ab c''" a b, THEN conjunct1]
    by (simp add: s1 s2 t1 t2 e)
  have b: "1 \<notin> step1 [()] ''Ab  c'' ''ab c''"
    using direct_line_matching[of 1 "[()]" "''Ab  c''" "''ab c''" a b, THEN conjunct1]
    by (simp add: s1)
  have z: "0 \<notin> step1 ([] :: unit list) ''Ab  c'' ''ab c''"
    using direct_line_matching[of 0 "[] :: unit list" "''Ab  c''" "''ab c''" a b, THEN conjunct1]
    by simp
  have n3: "normalize ''abcde'' = ''abcde''" and n4: "normalize ''bcde'' = ''bcde''"
    by (simp_all add: normalize_def trim_def is_space_def toLowerCase_def lower_char_def char_of_def bit_Suc_0_iff)
  have inc: "\<exists>p s. ''abcde'' = p @ ''bcde'' @ s"
    by (rule exI[of _ "''a''"], rule exI[of _ "[]"]) simp
  have c: "calculateExactSimilarity ''abcde'' ''bcde'' = 4 / 5"
    using direct_line_matching[of 0 "[()]" "[]" "[]" "''abcde''" "''bcde''", THEN conjunct2] inc
    by (simp add: n3 n4)
  from a b z c show ?thesis by simp
qed

end
